theory Spec2Isabelle
  imports Main "HOL-Library.Word"
begin

unbundle bit_operations_syntax

section \<open>JSON documents as Python sees them\<close>

text \<open>
  \<^verbatim>\<open>json.load\<close> yields \<^verbatim>\<open>dict\<close>, \<^verbatim>\<open>list\<close>, \<^verbatim>\<open>str\<close>, \<^verbatim>\<open>int\<close>,
  \<^verbatim>\<open>float\<close>, \<^verbatim>\<open>bool\<close> and \<^verbatim>\<open>None\<close>. A \<^verbatim>\<open>dict\<close> keeps insertion order, so
  it is an association list; the program never computes with a float, so a float is the 64
  bits of its IEEE representation.
\<close>

type_synonym float = "64 word"

datatype json =
    JNull
  | JBool bool
  | JInt int
  | JFloat float
  | JStr string
  | JArr "json list"
  | JObj "(string \<times> json) list"

type_synonym dict = "(string \<times> json) list"

datatype error =
    KeyError | TypeError | IndexError | AttributeError | ValueError | OverflowError | OSError
  | JSONDecodeError | URLError | HTTPError

subsection \<open>The dictionary and sequence operations the program uses\<close>

definition dict_keys :: "dict \<Rightarrow> string list" where
  "dict_keys d = map fst d"

definition dict_get :: "dict \<Rightarrow> string \<Rightarrow> json option" where
  "dict_get d k = map_of d k"

text \<open>\<^verbatim>\<open>d[k] = v\<close>: an existing key keeps its position, a new key goes last.\<close>

fun dict_set :: "dict \<Rightarrow> string \<Rightarrow> json \<Rightarrow> dict" where
  "dict_set [] k v = [(k, v)]"
| "dict_set ((k', v') # d) k v =
     (if k' = k then (k, v) # d else (k', v') # dict_set d k v)"

text \<open>\<^verbatim>\<open>d.pop(k, None)\<close> on a dictionary.\<close>

definition dict_pop :: "dict \<Rightarrow> string \<Rightarrow> dict" where
  "dict_pop d k = filter (\<lambda>kv. fst kv \<noteq> k) d"

fun starts_with :: "string \<Rightarrow> string \<Rightarrow> bool" where
  "starts_with s [] = True"
| "starts_with [] (c # p) = False"
| "starts_with (x # s) (c # p) = (x = c \<and> starts_with s p)"

fun is_substring :: "string \<Rightarrow> string \<Rightarrow> bool" where
  "is_substring p [] = (p = [])"
| "is_substring p (x # s) = (starts_with (x # s) p \<or> is_substring p s)"

text \<open>\<^verbatim>\<open>k in x\<close> for a string \<open>k\<close>: key membership in a dictionary, element
  membership in a list, substring test in a string, \<^verbatim>\<open>TypeError\<close> otherwise.\<close>

fun py_in :: "string \<Rightarrow> json \<Rightarrow> error + bool" where
  "py_in k (JObj d) = Inr (k \<in> set (dict_keys d))"
| "py_in k (JArr xs) = Inr (JStr k \<in> set xs)"
| "py_in k (JStr s) = Inr (is_substring k s)"
| "py_in k _ = Inl TypeError"

text \<open>\<^verbatim>\<open>x[k]\<close> for a string \<open>k\<close>.\<close>

fun py_getitem :: "json \<Rightarrow> string \<Rightarrow> error + json" where
  "py_getitem (JObj d) k = (case dict_get d k of None \<Rightarrow> Inl KeyError | Some v \<Rightarrow> Inr v)"
| "py_getitem _ k = Inl TypeError"

text \<open>\<^verbatim>\<open>x[0]\<close>. The keys of a parsed JSON object are strings, so \<open>0\<close> is never
  one of them.\<close>

fun py_getitem0 :: "json \<Rightarrow> error + json" where
  "py_getitem0 (JArr []) = Inl IndexError"
| "py_getitem0 (JArr (x # xs)) = Inr x"
| "py_getitem0 (JStr []) = Inl IndexError"
| "py_getitem0 (JStr (c # s)) = Inr (JStr [c])"
| "py_getitem0 (JObj d) = Inl KeyError"
| "py_getitem0 _ = Inl TypeError"

fun py_len :: "json \<Rightarrow> error + nat" where
  "py_len (JObj d) = Inr (length d)"
| "py_len (JArr xs) = Inr (length xs)"
| "py_len (JStr s) = Inr (length s)"
| "py_len _ = Inl TypeError"

text \<open>Truth value of an object in a condition: \<^verbatim>\<open>None\<close>, \<^verbatim>\<open>False\<close>, zero (of either
  sign, for a float) and the empty string, list and dictionary are false.\<close>

fun py_truthy :: "json \<Rightarrow> bool" where
  "py_truthy JNull = False"
| "py_truthy (JBool b) = b"
| "py_truthy (JInt i) = (i \<noteq> 0)"
| "py_truthy (JFloat w) = (w \<noteq> 0 \<and> w \<noteq> 0x8000000000000000)"
| "py_truthy (JStr s) = (s \<noteq> [])"
| "py_truthy (JArr xs) = (xs \<noteq> [])"
| "py_truthy (JObj d) = (d \<noteq> [])"

section \<open>What a run does besides returning\<close>

datatype message =
    UsingCache string json
  | ErrorStatus string int
  | ErrorEmpty string json
  | MoreThanOne string json

datatype event =
    Slept float
  | Requested string string
  | Printed message

type_synonym trace = "event list"

text \<open>
  What comes back from the translation service for one request: either the request never
  yields an HTTP response and an exception \<open>e\<close> is raised on the way (\<open>Raised e\<close>: a
  network failure, say), or an HTTP response arrives, with its status and its body as
  \<^verbatim>\<open>json.loads\<close> reads it (\<open>None\<close> when \<^verbatim>\<open>json.loads\<close> rejects the body). The service is a
  parameter of the model: its answer may depend on everything that happened before, on the
  target language and on the text.
\<close>

datatype reply = Raised error | Response int "json option"

type_synonym service = "trace \<Rightarrow> string \<Rightarrow> string \<Rightarrow> reply"

text \<open>
  \<^verbatim>\<open>request.urlopen\<close> hands a response to its caller only when the status is one of
  200 to 299; for every other status the library's error processor raises \<^verbatim>\<open>HTTPError\<close>.
\<close>

definition urlopen :: "reply \<Rightarrow> error + int \<times> json option" where
  "urlopen r =
     (case r of
        Raised e \<Rightarrow> Inl e
      | Response status body \<Rightarrow>
          if 200 \<le> status \<and> status < 300 then Inr (status, body) else Inl HTTPError)"

section \<open>Translating one string\<close>

text \<open>\<^verbatim>\<open>decode_text\<close> is \<^verbatim>\<open>str(text)\<close>: the identity on a string; the rendering of any
  other value is the parameter \<open>py_str\<close>.\<close>

definition decode_text :: "(json \<Rightarrow> string) \<Rightarrow> json \<Rightarrow> string" where
  "decode_text py_str t = (case t of JStr s \<Rightarrow> s | _ \<Rightarrow> py_str t)"

text \<open>The part of \<^verbatim>\<open>translate_string\<close> after the test for the \<^verbatim>\<open>translations\<close> field:
  the warning when there are several candidates, then
  \<^verbatim>\<open>decode_text(response_data["translations"][0]["text"])\<close>.\<close>

definition read_translation ::
  "(json \<Rightarrow> string) \<Rightarrow> string \<Rightarrow> json \<Rightarrow> trace \<Rightarrow> (error + json) \<times> trace" where
  "read_translation py_str text response_data st =
     (case py_getitem response_data ''translations'' of
        Inl e \<Rightarrow> (Inl e, st)
      | Inr translations \<Rightarrow>
          (case py_len translations of
             Inl e \<Rightarrow> (Inl e, st)
           | Inr n \<Rightarrow>
               (let st' = (if n > 1 then st @ [Printed (MoreThanOne text translations)] else st)
                in case py_getitem0 translations of
                     Inl e \<Rightarrow> (Inl e, st')
                   | Inr first \<Rightarrow>
                       (case py_getitem first ''text'' of
                          Inl e \<Rightarrow> (Inl e, st')
                        | Inr t \<Rightarrow> (Inr (JStr (decode_text py_str t)), st')))))"

text \<open>
  \<^verbatim>\<open>time.sleep\<close> raises for some delays (\<^verbatim>\<open>ValueError\<close> for a negative one or a NaN,
  \<^verbatim>\<open>OverflowError\<close> for one too large) and returns otherwise; which delays it accepts is the
  parameter \<open>time_sleep\<close>, \<open>None\<close> meaning that the call returns. Nothing is sent when it
  raises.
\<close>

definition translate_string ::
  "service \<Rightarrow> (float \<Rightarrow> error option) \<Rightarrow> (json \<Rightarrow> string) \<Rightarrow> json \<Rightarrow> json \<Rightarrow> string \<Rightarrow> float
     \<Rightarrow> bool option \<Rightarrow> trace \<Rightarrow> (error + json) \<times> trace" where
  "translate_string server time_sleep py_str GLOBAL_CACHE text target_locale sleep cache st =
     (case text of
        JStr s \<Rightarrow>
          (case (if cache \<noteq> None then py_getitem GLOBAL_CACHE s else Inl KeyError) of
             Inr res \<Rightarrow> (Inr res, st @ [Printed (UsingCache s res)])
           | Inl TypeError \<Rightarrow> (Inl TypeError, st)
           | Inl _ \<Rightarrow>
               (case time_sleep sleep of
                  Some e \<Rightarrow> (Inl e, st)
                | None \<Rightarrow>
                    (let st' = st @ [Slept sleep, Requested target_locale s]
                     in case urlopen (server st target_locale s) of
                          Inl e \<Rightarrow> (Inl e, st')
                        | Inr (status, body) \<Rightarrow>
                            if status \<noteq> 200
                            then (Inr (JStr s), st' @ [Printed (ErrorStatus s status)])
                            else
                              (case body of
                                 None \<Rightarrow> (Inl JSONDecodeError, st')
                               | Some response_data \<Rightarrow>
                                   (case py_in ''translations'' response_data of
                                      Inl e \<Rightarrow> (Inl e, st')
                                    | Inr False \<Rightarrow>
                                        (Inr (JStr s), st' @ [Printed (ErrorEmpty s response_data)])
                                    | Inr True \<Rightarrow> read_translation py_str s response_data st')))))
      | _ \<Rightarrow> (Inr text, st))"

section \<open>Walking the document\<close>

text \<open>The condition of the second branch of the loop,
  \<^verbatim>\<open>key in keep and existing and existing[key] is not None and existing[key] != ""\<close>,
  evaluated left to right; the subscript raises when it cannot be taken.\<close>

definition keep_applies :: "string list \<Rightarrow> json \<Rightarrow> string \<Rightarrow> error + bool" where
  "keep_applies keep existing key =
     (if key \<in> set keep \<and> py_truthy existing
      then (case py_getitem existing key of
              Inl e \<Rightarrow> Inl e
            | Inr v \<Rightarrow> Inr (v \<noteq> JNull \<and> v \<noteq> JStr ''''))
      else Inr False)"

text \<open>
  The module reaches four things that are not arguments: the service that
  \<^verbatim>\<open>request.urlopen\<close> talks to, the built-ins \<^verbatim>\<open>time.sleep\<close> and \<^verbatim>\<open>str\<close>, and the module
  variable \<^verbatim>\<open>GLOBAL_CACHE\<close>, which \<^verbatim>\<open>main\<close> may replace by whatever the cache file holds.
\<close>

record world =
  server :: service
  time_sleep :: "float \<Rightarrow> error option"
  py_str :: "json \<Rightarrow> string"
  GLOBAL_CACHE :: json

text \<open>The keyword arguments of \<^verbatim>\<open>iterate_translate\<close> other than \<^verbatim>\<open>data\<close>. Every
  recursive call repeats them as they are.\<close>

record args =
  target_locale :: string
  sleep :: float
  skip :: "string list"
  keep :: "string list"
  existing :: json
  cache :: "bool option"

text \<open>
  \<open>translate_items\<close> is the \<^verbatim>\<open>for key, value in data.items()\<close> loop with the
  dictionary \<^verbatim>\<open>res\<close> built so far, \<open>translate_list\<close> the list comprehension. A value that
  is none of \<^verbatim>\<open>dict\<close>, \<^verbatim>\<open>list\<close>, \<^verbatim>\<open>str\<close>, \<^verbatim>\<open>bool\<close>, \<^verbatim>\<open>int\<close>, \<^verbatim>\<open>float\<close>
  is \<^verbatim>\<open>None\<close>; the function then ends without a \<^verbatim>\<open>return\<close>, which yields \<^verbatim>\<open>None\<close>.
\<close>

fun iterate_translate :: "world \<Rightarrow> args \<Rightarrow> json \<Rightarrow> trace \<Rightarrow> (error + json) \<times> trace"
and translate_items :: "world \<Rightarrow> args \<Rightarrow> dict \<Rightarrow> dict \<Rightarrow> trace \<Rightarrow> (error + dict) \<times> trace"
and translate_list :: "world \<Rightarrow> args \<Rightarrow> json list \<Rightarrow> trace \<Rightarrow> (error + json list) \<times> trace"
where
  "iterate_translate w a (JObj d) st =
     (case translate_items w a d [] st of
        (Inl e, st') \<Rightarrow> (Inl e, st')
      | (Inr res, st') \<Rightarrow> (Inr (JObj res), st'))"
| "iterate_translate w a (JArr xs) st =
     (case translate_list w a xs st of
        (Inl e, st') \<Rightarrow> (Inl e, st')
      | (Inr ys, st') \<Rightarrow> (Inr (JArr ys), st'))"
| "iterate_translate w a (JStr s) st =
     (if s = '''' then (Inr (JStr s), st)
      else translate_string (server w) (time_sleep w) (py_str w) (GLOBAL_CACHE w) (JStr s)
             (target_locale a) (sleep a) (cache a) st)"
| "iterate_translate w a (JBool b) st = (Inr (JBool b), st)"
| "iterate_translate w a (JInt i) st = (Inr (JInt i), st)"
| "iterate_translate w a (JFloat x) st = (Inr (JFloat x), st)"
| "iterate_translate w a JNull st = (Inr JNull, st)"
| "translate_items w a [] res st = (Inr res, st)"
| "translate_items w a ((key, value) # rest) res st =
     (if key \<in> set (skip a)
      then translate_items w a rest (dict_set res key value) st
      else
        (case keep_applies (keep a) (existing a) key of
           Inl e \<Rightarrow> (Inl e, st)
         | Inr True \<Rightarrow>
             (case py_getitem (existing a) key of
                Inl e \<Rightarrow> (Inl e, st)
              | Inr v \<Rightarrow> translate_items w a rest (dict_set res key v) st)
         | Inr False \<Rightarrow>
             (case py_in key (GLOBAL_CACHE w) of
                Inl e \<Rightarrow> (Inl e, st)
              | Inr True \<Rightarrow>
                  (case py_getitem (GLOBAL_CACHE w) key of
                     Inl e \<Rightarrow> (Inl e, st)
                   | Inr v \<Rightarrow> translate_items w a rest (dict_set res key v) st)
              | Inr False \<Rightarrow>
                  (case iterate_translate w a value st of
                     (Inl e, st') \<Rightarrow> (Inl e, st')
                   | (Inr v, st') \<Rightarrow> translate_items w a rest (dict_set res key v) st'))))"
| "translate_list w a [] st = (Inr [], st)"
| "translate_list w a (value # rest) st =
     (case iterate_translate w a value st of
        (Inl e, st') \<Rightarrow> (Inl e, st')
      | (Inr v, st') \<Rightarrow>
          (case translate_list w a rest st' of
             (Inl e, st'') \<Rightarrow> (Inl e, st'')
           | (Inr vs, st'') \<Rightarrow> (Inr (v # vs), st'')))"

section \<open>A run: cache file, existing output, traversal, persistence\<close>

text \<open>The two files a run reads and writes, by their parsed contents; \<open>None\<close> is a file
  that does not exist. Paths, prompts and the text layout of the files are outside the model.\<close>

record disk =
  output_json :: "json option"
  cache_json :: "json option"

definition get_strings_from_file ::
  "world \<Rightarrow> json \<Rightarrow> json option \<Rightarrow> string \<Rightarrow> float \<Rightarrow> string list option
     \<Rightarrow> string list option \<Rightarrow> bool option \<Rightarrow> trace \<Rightarrow> (error + json) \<times> trace" where
  "get_strings_from_file w data out_file locale delay skip_opt keep_opt cache_opt st =
     iterate_translate w
       \<lparr> target_locale = locale, sleep = delay,
         skip = (case skip_opt of None \<Rightarrow> [] | Some ks \<Rightarrow> ks),
         keep = (case keep_opt of None \<Rightarrow> [] | Some ks \<Rightarrow> ks),
         existing = (case out_file of None \<Rightarrow> JObj [] | Some e \<Rightarrow> e),
         cache = cache_opt \<rparr>
       data st"

definition save_results_file :: "json \<Rightarrow> disk \<Rightarrow> bool \<Rightarrow> disk" where
  "save_results_file data fs with_cache_file =
     (let fs' = fs\<lparr>output_json := Some data\<rparr>
      in if with_cache_file then fs'\<lparr>cache_json := Some data\<rparr> else fs')"

text \<open>\<^verbatim>\<open>GLOBAL_CACHE.pop(key, None)\<close>: defined on a dictionary only.\<close>

fun py_pop :: "json \<Rightarrow> string \<Rightarrow> error + json" where
  "py_pop (JObj d) k = Inr (JObj (dict_pop d k))"
| "py_pop (JArr xs) k = Inl TypeError"
| "py_pop _ k = Inl AttributeError"

fun pop_all :: "json \<Rightarrow> string list \<Rightarrow> error + json" where
  "pop_all g [] = Inr g"
| "pop_all g (k # ks) = (case py_pop g k of Inl e \<Rightarrow> Inl e | Inr g' \<Rightarrow> pop_all g' ks)"

text \<open>The start of a run in \<^verbatim>\<open>main\<close>: \<^verbatim>\<open>GLOBAL_CACHE\<close> is the empty dictionary unless
  caching is on and the cache file exists; the keys of \<^verbatim>\<open>--nocache\<close> are then removed.\<close>

definition load_cache :: "bool \<Rightarrow> json option \<Rightarrow> string list option \<Rightarrow> error + json" where
  "load_cache args_cache cache_file nocache =
     (if args_cache
      then (case cache_file of
              None \<Rightarrow> Inr (JObj [])
            | Some g \<Rightarrow> (case nocache of None \<Rightarrow> Inr g | Some ks \<Rightarrow> pop_all g ks))
      else Inr (JObj []))"

text \<open>\<^verbatim>\<open>main\<close> from the loading of the cache to the writing of the files, for an input
  document \<open>data\<close> already read and an output path already chosen.\<close>

definition main_run ::
  "service \<Rightarrow> (float \<Rightarrow> error option) \<Rightarrow> (json \<Rightarrow> string) \<Rightarrow> json \<Rightarrow> string \<Rightarrow> float
     \<Rightarrow> string list option \<Rightarrow> string list option \<Rightarrow> bool \<Rightarrow> string list option \<Rightarrow> disk \<Rightarrow> trace
     \<Rightarrow> (error + json) \<times> disk \<times> trace" where
  "main_run U S P data lang_code delay skip_opt keep_opt args_cache nocache fs st =
     (case load_cache args_cache (cache_json fs) nocache of
        Inl e \<Rightarrow> (Inl e, fs, st)
      | Inr G \<Rightarrow>
          (case get_strings_from_file
                  \<lparr>server = U, time_sleep = S, py_str = P, GLOBAL_CACHE = G\<rparr>
                  data (output_json fs) lang_code delay skip_opt keep_opt (Some args_cache) st of
             (Inl e, st') \<Rightarrow> (Inl e, fs, st')
           | (Inr results, st') \<Rightarrow>
               (Inr results, save_results_file results fs args_cache, st')))"

section \<open>Notions used to state the properties\<close>


text \<open>The texts sent to the service, in order.\<close>

fun requests :: "trace \<Rightarrow> string list" where
  "requests [] = []"
| "requests (Requested l t # evs) = t # requests evs"
| "requests (ev # evs) = requests evs"



fun non_string_leaf :: "json \<Rightarrow> bool" where
  "non_string_leaf JNull = True"
| "non_string_leaf (JBool b) = True"
| "non_string_leaf (JInt i) = True"
| "non_string_leaf (JFloat x) = True"
| "non_string_leaf _ = False"

fun is_string :: "json \<Rightarrow> bool" where
  "is_string (JStr s) = True"
| "is_string _ = False"

text \<open>How the value stored at a key comes about, after the four branches of the loop: the
  input value for a skipped key, the value of the existing output when the keep condition
  holds, the cached value when the key is in the cache, and otherwise a result of the
  traversal of the input value.\<close>

inductive entry_value :: "world \<Rightarrow> args \<Rightarrow> string \<Rightarrow> json \<Rightarrow> json \<Rightarrow> bool"
  for w :: world and a :: args
where
  by_skip: "k \<in> set (skip a) \<Longrightarrow> entry_value w a k v v"
| by_keep: "k \<notin> set (skip a) \<Longrightarrow> keep_applies (keep a) (existing a) k = Inr True
     \<Longrightarrow> py_getitem (existing a) k = Inr u \<Longrightarrow> entry_value w a k v u"
| by_cache: "k \<notin> set (skip a) \<Longrightarrow> keep_applies (keep a) (existing a) k = Inr False
     \<Longrightarrow> py_in k (GLOBAL_CACHE w) = Inr True \<Longrightarrow> py_getitem (GLOBAL_CACHE w) k = Inr u
     \<Longrightarrow> entry_value w a k v u"
| by_walk: "k \<notin> set (skip a) \<Longrightarrow> keep_applies (keep a) (existing a) k = Inr False
     \<Longrightarrow> py_in k (GLOBAL_CACHE w) = Inr False \<Longrightarrow> iterate_translate w a v s = (Inr u, s')
     \<Longrightarrow> entry_value w a k v u"



text \<open>The texts a traversal has to send, in order: one for every non-empty string leaf it
  reaches that caching does not find as a key of the cache. A leaf is reached when no key
  above it is skipped, kept or cached.\<close>

fun pending :: "world \<Rightarrow> args \<Rightarrow> json \<Rightarrow> string list"
and pending_items :: "world \<Rightarrow> args \<Rightarrow> dict \<Rightarrow> string list"
and pending_elems :: "world \<Rightarrow> args \<Rightarrow> json list \<Rightarrow> string list"
where
  "pending w a (JObj d) = pending_items w a d"
| "pending w a (JArr xs) = pending_elems w a xs"
| "pending w a (JStr s) =
     (if s = '''' then []
      else (case (if cache a \<noteq> None then py_getitem (GLOBAL_CACHE w) s else Inl KeyError) of
              Inr v \<Rightarrow> []
            | Inl e \<Rightarrow> [s]))"
| "pending w a (JBool b) = []"
| "pending w a (JInt i) = []"
| "pending w a (JFloat x) = []"
| "pending w a JNull = []"
| "pending_items w a [] = []"
| "pending_items w a ((k, v) # d) =
     (if k \<in> set (skip a) \<or> keep_applies (keep a) (existing a) k = Inr True
         \<or> py_in k (GLOBAL_CACHE w) = Inr True
      then [] else pending w a v)
     @ pending_items w a d"
| "pending_elems w a [] = []"
| "pending_elems w a (x # xs) = pending w a x @ pending_elems w a xs"

text \<open>The steps of a computation that started with the trace \<open>st\<close> and ended with the
  result and trace \<open>r\<close> account for the texts \<open>p\<close>: what was sent is a beginning of \<open>p\<close>,
  and all of \<open>p\<close> when the computation returned a value.\<close>

definition accounted :: "string list \<Rightarrow> (error + 'x) \<times> trace \<Rightarrow> trace \<Rightarrow> bool" where
  "accounted p r st =
     (\<exists>evs. snd r = st @ evs \<and> (\<exists>rest. p = requests evs @ rest)
        \<and> (\<forall>out. fst r = Inr out \<longrightarrow> requests evs = p))"

text \<open>A place in a document: the keys and list positions that lead to it from the root.\<close>

datatype step = Key string | Idx nat



subsection \<open>Concrete runs\<close>

text \<open>
  Three services: one that answers every request with status 200 and the single candidate
  \<open>Hola\<close>, one that refuses every request with status 403, and one that answers with status
  200 and the body \<^verbatim>\<open>null\<close>. A \<^verbatim>\<open>time.sleep\<close> that returns for a delay from 0
  to below \<open>2\<^sup>3\<^sup>3\<close> seconds and for -0.0, and raises otherwise: \<^verbatim>\<open>ValueError\<close> for a NaN
  and for a negative delay, \<^verbatim>\<open>OverflowError\<close> for a delay whose nanoseconds do not fit 64
  bits, \<^verbatim>\<open>OSError\<close> in between (where the operating system starts to refuse a long delay
  depends on the platform; the sample takes \<open>2\<^sup>3\<^sup>3\<close> seconds). \<open>blank_str\<close> stands for \<^verbatim>\<open>str\<close> on values that are not strings; no
  concrete run below applies it. The arguments of the examples: skip \<open>secret_code\<close>, keep
  \<open>name\<close>, with an earlier output holding \<open>name\<close>, and no delay.
\<close>

definition hola_service :: service where
  "hola_service st l t =
     Response 200 (Some (JObj [(''translations'', JArr [JObj [(''text'', JStr ''Hola'')]])]))"

definition refusing_service :: service where
  "refusing_service st l t = Response 403 (Some (JObj [(''message'', JStr ''Forbidden'')]))"

definition null_service :: service where
  "null_service st l t = Response 200 (Some JNull)"

definition usual_sleep :: "float \<Rightarrow> error option" where
  "usual_sleep d =
     (if 0x7FF0000000000000 < (d AND 0x7FFFFFFFFFFFFFFF) then Some ValueError
      else if 0x42012E0BE826D695 \<le> d \<and> d \<le> 0x7FF0000000000000 then Some OverflowError
      else if 0xC2012E0BE826D696 \<le> d then Some OverflowError
      else if 0x8000000000000000 < d then Some ValueError
      else if 0x4200000000000000 \<le> d \<and> d < 0x8000000000000000 then Some OSError
      else None)"

definition blank_str :: "json \<Rightarrow> string" where
  "blank_str v = []"

definition demo_world :: world where
  "demo_world =
     \<lparr>server = hola_service, time_sleep = usual_sleep, py_str = blank_str,
      GLOBAL_CACHE = JObj []\<rparr>"

definition demo_args :: args where
  "demo_args =
     \<lparr>target_locale = ''ES'', sleep = 0, skip = [''secret_code''], keep = [''name''],
      existing = JObj [(''name'', JStr ''Mundo'')], cache = Some True\<rparr>"

section \<open>Basic facts about the dictionary operations and the loop\<close>

lemma dict_get_set_same: "dict_get (dict_set r k v) k = Some v"
  by (induction r) (auto simp: dict_get_def)

lemma dict_get_set_other: "k' \<noteq> k \<Longrightarrow> dict_get (dict_set r k v) k' = dict_get r k'"
  by (induction r) (auto simp: dict_get_def)

text \<open>The loop over a concatenation is the loop over the first part followed, unless it
  raised, by the loop over the second part.\<close>

lemma translate_items_append:
  "translate_items w a (xs @ ys) res st =
     (case translate_items w a xs res st of
        (Inl e, s) \<Rightarrow> (Inl e, s)
      | (Inr r, s) \<Rightarrow> translate_items w a ys r s)"
proof (induction xs arbitrary: res st)
  case Nil
  show ?case by simp
next
  case (Cons kv xs)
  obtain k v where kv: "kv = (k, v)" by (cases kv)
  show ?case
    unfolding kv
    by (simp add: Cons.IH split: sum.splits bool.splits prod.splits)
qed

lemma translate_items_keeps_other:
  "translate_items w a ys r s = (Inr out, s') \<Longrightarrow> k \<notin> fst ` set ys
     \<Longrightarrow> dict_get out k = dict_get r k"
proof (induction ys arbitrary: r s)
  case Nil
  then show ?case by simp
next
  case (Cons kv ys)
  obtain k' v where kv: "kv = (k', v)" by (cases kv)
  from Cons.prems(2) kv have ne: "k' \<noteq> k" and notin: "k \<notin> fst ` set ys" by auto
  from Cons.prems(1) obtain u s1 where
    "translate_items w a ys (dict_set r k' u) s1 = (Inr out, s')"
    unfolding kv
    by (auto split: if_splits sum.splits bool.splits prod.splits)
  from Cons.IH[OF this notin] ne show ?case
    by (simp add: dict_get_set_other[of k k'])
qed

lemma keep_applies_hit:
  "k \<in> set ks \<Longrightarrow> py_getitem ex k = Inr e \<Longrightarrow> e \<noteq> JNull \<Longrightarrow> e \<noteq> JStr ''''
     \<Longrightarrow> keep_applies ks ex k = Inr True"
  by (cases ex) (auto simp: keep_applies_def dict_get_def split: option.splits)

lemma items_step_skip:
  "k \<in> set (skip a) \<Longrightarrow>
     translate_items w a ((k, v) # rest) res st = translate_items w a rest (dict_set res k v) st"
  by simp

lemma items_step_keep:
  "k \<notin> set (skip a) \<Longrightarrow> k \<in> set (keep a) \<Longrightarrow> py_getitem (existing a) k = Inr e
     \<Longrightarrow> e \<noteq> JNull \<Longrightarrow> e \<noteq> JStr ''''
     \<Longrightarrow> translate_items w a ((k, v) # rest) res st = translate_items w a rest (dict_set res k e) st"
  by (simp add: keep_applies_hit)

lemma object_split:
  "iterate_translate w a (JObj (xs @ kv # ys)) st =
     (case translate_items w a xs [] st of
        (Inl e, s) \<Rightarrow> (Inl e, s)
      | (Inr r, s) \<Rightarrow>
          (case translate_items w a (kv # ys) r s of
             (Inl e, s') \<Rightarrow> (Inl e, s')
           | (Inr res, s') \<Rightarrow> (Inr (JObj res), s')))"
  by (simp only: iterate_translate.simps translate_items_append split: prod.splits sum.splits)
     (auto split: prod.splits sum.splits)

lemma object_value_at:
  assumes run: "iterate_translate w a (JObj (xs @ (k, v) # ys)) st = (Inr out, st')"
    and step: "\<And>r s. translate_items w a ((k, v) # ys) r s = translate_items w a ys (dict_set r k u) s"
    and fresh: "k \<notin> fst ` set ys"
  shows "\<exists>res. out = JObj res \<and> dict_get res k = Some u"
proof -
  from run have "(case translate_items w a xs [] st of
        (Inl e, s) \<Rightarrow> (Inl e, s)
      | (Inr r, s) \<Rightarrow>
          (case translate_items w a ys (dict_set r k u) s of
             (Inl e, s') \<Rightarrow> (Inl e, s')
           | (Inr res, s') \<Rightarrow> (Inr (JObj res), s'))) = (Inr out, st')"
    by (simp only: object_split step)
  then obtain r s res where
    "translate_items w a ys (dict_set r k u) s = (Inr res, st')" and out: "out = JObj res"
    by (auto split: prod.splits sum.splits)
  from translate_items_keeps_other[OF this(1) fresh] out show ?thesis
    by (simp add: dict_get_set_same)
qed

subsection \<open>Where each stored value comes from\<close>

text \<open>For a dictionary with pairwise different keys the loop appends one entry per input
  entry, in order, and each stored value arises by one of the four branches.\<close>

lemma dict_set_fresh: "k \<notin> fst ` set r \<Longrightarrow> dict_set r k v = r @ [(k, v)]"
  by (induction r) auto

lemma translate_items_entries:
  "translate_items w a d acc st = (Inr out, st') \<Longrightarrow> distinct (map fst d)
     \<Longrightarrow> fst ` set d \<inter> fst ` set acc = {}
     \<Longrightarrow> \<exists>new. out = acc @ new
           \<and> list_all2 (\<lambda>kv ku. fst ku = fst kv \<and> entry_value w a (fst kv) (snd kv) (snd ku)) d new"
proof (induction d arbitrary: acc st)
  case Nil
  then show ?case by simp
next
  case (Cons kv d)
  obtain k v where kv: "kv = (k, v)" by (cases kv)
  from Cons.prems(2,3) kv have fresh: "k \<notin> fst ` set acc" and dist: "distinct (map fst d)"
    and knew: "k \<notin> fst ` set d" by auto
  from Cons.prems(1) obtain u s1 where
    rest: "translate_items w a d (dict_set acc k u) s1 = (Inr out, st')"
    and ev: "entry_value w a k v u"
    unfolding kv
    by (auto split: if_splits sum.splits bool.splits prod.splits
             intro: entry_value.intros)
  have set_eq: "dict_set acc k u = acc @ [(k, u)]" by (rule dict_set_fresh[OF fresh])
  from Cons.prems(3) knew have disj: "fst ` set d \<inter> fst ` set (acc @ [(k, u)]) = {}"
    by auto
  from Cons.IH[OF rest[unfolded set_eq] dist disj] obtain new where
    "out = (acc @ [(k, u)]) @ new"
    and "list_all2 (\<lambda>kv ku. fst ku = fst kv \<and> entry_value w a (fst kv) (snd kv) (snd ku)) d new"
    by blast
  with ev kv show ?case
    by (intro exI[of _ "(k, u) # new"]) simp
qed

subsection \<open>Shape\<close>






subsection \<open>Keys found in the cache\<close>

lemma dict_set_keys: "fst ` set (dict_set r k v) = insert k (fst ` set r)"
proof (induction r)
  case Nil
  show ?case by simp
next
  case (Cons x r)
  obtain k' v' where x: "x = (k', v')" by (cases x)
  show ?case
  proof (cases "k' = k")
    case True
    then show ?thesis using x by simp
  next
    case False
    then show ?thesis using x Cons.IH by (simp add: insert_commute)
  qed
qed

lemma translate_items_keys:
  "translate_items w a d acc st = (Inr out, st') \<Longrightarrow> fst ` set out = fst ` set acc \<union> fst ` set d"
proof (induction d arbitrary: acc st)
  case Nil
  then show ?case by simp
next
  case (Cons kv d)
  obtain k v where kv: "kv = (k, v)" by (cases kv)
  from Cons.prems obtain u s1 where
    "translate_items w a d (dict_set acc k u) s1 = (Inr out, st')"
    unfolding kv
    by (auto split: if_splits sum.splits bool.splits prod.splits)
  from Cons.IH[OF this] kv show ?case by (auto simp: dict_set_keys)
qed

lemma cached_keys_silent:
  "\<forall>k \<in> fst ` set d. py_in k (GLOBAL_CACHE w) = Inr True
     \<Longrightarrow> snd (translate_items w a d acc st) = st"
proof (induction d arbitrary: acc)
  case Nil
  show ?case by simp
next
  case (Cons kv d)
  obtain k v where kv: "kv = (k, v)" by (cases kv)
  from Cons.prems kv have hit: "py_in k (GLOBAL_CACHE w) = Inr True"
    and rest: "\<forall>k \<in> fst ` set d. py_in k (GLOBAL_CACHE w) = Inr True" by auto
  show ?case
    unfolding kv using hit Cons.IH[OF rest]
    by (simp split: sum.splits bool.splits)
qed

lemma pop_all_dict:
  "pop_all (JObj g) ns = Inr (JObj (filter (\<lambda>kv. fst kv \<notin> set ns) g))"
proof (induction ns arbitrary: g)
  case Nil
  show ?case by simp
next
  case (Cons n ns)
  have "filter (\<lambda>kv. fst kv \<notin> set ns) (dict_pop g n) = filter (\<lambda>kv. fst kv \<notin> set (n # ns)) g"
    by (auto simp: dict_pop_def intro: filter_cong)
  then show ?case by (simp add: Cons.IH)
qed

lemma load_cache_warm:
  assumes "\<forall>ns. nocache = Some ns \<longrightarrow> set ns \<inter> K = {}"
  shows "\<exists>g. load_cache True (Some (JObj res)) nocache = Inr (JObj g)
           \<and> (\<forall>kv \<in> set res. fst kv \<in> K \<longrightarrow> kv \<in> set g) \<and> set g \<subseteq> set res
           \<and> (distinct (map fst res) \<longrightarrow> distinct (map fst g))"
proof (cases nocache)
  case None
  then show ?thesis by (simp add: load_cache_def)
next
  case (Some ns)
  with assms have "set ns \<inter> K = {}" by simp
  then show ?thesis
    unfolding Some
    by (intro exI[of _ "filter (\<lambda>kv. fst kv \<notin> set ns) res"])
       (auto simp: load_cache_def pop_all_dict distinct_map_filter)
qed

lemma object_run:
  assumes "iterate_translate w a (JObj d) st = (Inr r, st')"
  obtains res where "r = JObj res" and "translate_items w a d [] st = (Inr res, st')"
  using assms by (auto split: sum.splits prod.splits)

subsection \<open>Traces of the loop and of the list comprehension\<close>

lemma requests_append: "requests (xs @ ys) = requests xs @ requests ys"
  by (induction xs rule: requests.induct) simp_all

lemma py_getitem_errors: "py_getitem G s = Inl e \<Longrightarrow> e = KeyError \<or> e = TypeError"
  by (cases G) (auto split: option.splits)

lemma translate_items_trace:
  assumes nil: "Q []" and app: "\<And>x y. Q x \<Longrightarrow> Q y \<Longrightarrow> Q (x @ y)"
  shows "(\<And>k v s. (k, v) \<in> set d \<Longrightarrow> \<exists>evs. snd (iterate_translate w a v s) = s @ evs \<and> Q evs)
     \<Longrightarrow> \<exists>evs. snd (translate_items w a d acc st) = st @ evs \<and> Q evs"
proof (induction d arbitrary: acc st)
  case Nil
  show ?case using nil by simp
next
  case (Cons kv d)
  obtain k v where kv: "kv = (k, v)" by (cases kv)
  have rest: "\<exists>evs. snd (translate_items w a d acc' s) = s @ evs \<and> Q evs" for acc' s
  proof (rule Cons.IH)
    fix k' v' s0 assume "(k', v') \<in> set d"
    then show "\<exists>evs. snd (iterate_translate w a v' s0) = s0 @ evs \<and> Q evs"
      using Cons.prems[of k' v' s0] by simp
  qed
  from Cons.prems[of k v st] kv obtain e1 where
    walk: "snd (iterate_translate w a v st) = st @ e1" "Q e1" by auto
  have same: "\<exists>evs. st = st @ evs \<and> Q evs" using nil by simp
  show ?case
  proof (cases "iterate_translate w a v st")
    case (Pair r s1)
    with walk have s1: "s1 = st @ e1" by simp
    have after: "\<exists>evs. snd (translate_items w a d acc' s1) = st @ evs \<and> Q evs" for acc'
    proof -
      from rest[of acc' s1] obtain e2 where
        "snd (translate_items w a d acc' s1) = s1 @ e2" "Q e2" by blast
      with s1 walk(2) app show ?thesis by (intro exI[of _ "e1 @ e2"]) simp
    qed
    have failed: "\<exists>evs. s1 = st @ evs \<and> Q evs" using s1 walk(2) by blast
    show ?thesis
      unfolding kv using rest same after failed Pair
      by (simp split: sum.splits bool.splits)
  qed
qed

lemma translate_list_trace:
  assumes nil: "Q []" and app: "\<And>x y. Q x \<Longrightarrow> Q y \<Longrightarrow> Q (x @ y)"
  shows "(\<And>x s. x \<in> set xs \<Longrightarrow> \<exists>evs. snd (iterate_translate w a x s) = s @ evs \<and> Q evs)
     \<Longrightarrow> \<exists>evs. snd (translate_list w a xs st) = st @ evs \<and> Q evs"
proof (induction xs arbitrary: st)
  case Nil
  show ?case using nil by simp
next
  case (Cons x xs)
  from Cons.prems[of x st] obtain e1 where
    walk: "snd (iterate_translate w a x st) = st @ e1" "Q e1" by auto
  show ?case
  proof (cases "iterate_translate w a x st")
    case (Pair r s1)
    with walk have s1: "s1 = st @ e1" by simp
    have "\<exists>evs. snd (translate_list w a xs s1) = s1 @ evs \<and> Q evs"
    proof (rule Cons.IH)
      fix x' s0 assume "x' \<in> set xs"
      then show "\<exists>evs. snd (iterate_translate w a x' s0) = s0 @ evs \<and> Q evs"
        using Cons.prems[of x' s0] by simp
    qed
    then obtain e2 where e2: "snd (translate_list w a xs s1) = s1 @ e2" "Q e2" by blast
    have after: "\<exists>evs. snd (translate_list w a xs s1) = st @ evs \<and> Q evs"
      using e2 s1 walk(2) app by (intro exI[of _ "e1 @ e2"]) simp
    have failed: "\<exists>evs. s1 = st @ evs \<and> Q evs" using s1 walk(2) by blast
    show ?thesis
      using after failed Pair
      by (cases "translate_list w a xs s1") (auto split: sum.splits)
  qed
qed

subsection \<open>Replaying a run against its own result\<close>

lemma entry_value_skip: "entry_value w a k v u \<Longrightarrow> k \<in> set (skip a) \<Longrightarrow> u = v"
  by (auto elim: entry_value.cases)

lemma replay_step:
  assumes G: "GLOBAL_CACHE w = JObj g" and E: "existing a = JObj ex"
    and ex: "dict_get ex k = Some u" and g: "dict_get g k = Some u"
    and sk: "k \<in> set (skip a) \<longrightarrow> u = v"
  shows "translate_items w a ((k, v) # d) acc st = translate_items w a d (dict_set acc k u) st"
proof (cases "k \<in> set (skip a)")
  case True
  with sk show ?thesis by simp
next
  case False
  from g have "(k, u) \<in> set g" by (auto simp: dict_get_def dest: map_of_SomeD)
  then have ing: "k \<in> set (dict_keys g)" by (force simp: dict_keys_def)
  from ex have "ex \<noteq> []" by (auto simp: dict_get_def)
  with False ing ex g show ?thesis
    by (auto simp: keep_applies_def G E split: bool.splits)
qed

lemma replay:
  assumes G: "GLOBAL_CACHE w = JObj g" and E: "existing a = JObj ex"
  shows "list_all2 (\<lambda>kv ku. fst ku = fst kv \<and> (fst kv \<in> set (skip a) \<longrightarrow> snd ku = snd kv)) d new
     \<Longrightarrow> \<forall>ku \<in> set new. dict_get ex (fst ku) = Some (snd ku) \<and> dict_get g (fst ku) = Some (snd ku)
     \<Longrightarrow> distinct (map fst new) \<Longrightarrow> fst ` set new \<inter> fst ` set acc = {}
     \<Longrightarrow> translate_items w a d acc st = (Inr (acc @ new), st)"
proof (induction d new arbitrary: acc rule: list_all2_induct)
  case Nil
  show ?case by simp
next
  case (Cons kv d ku new)
  obtain k v where kv: "kv = (k, v)" by (cases kv)
  obtain k' u where ku: "ku = (k', u)" by (cases ku)
  from Cons.hyps(1) kv ku have k': "k' = k" and sk: "k \<in> set (skip a) \<longrightarrow> u = v" by auto
  from Cons.prems(1) ku k' have ex: "dict_get ex k = Some u" and g: "dict_get g k = Some u"
    by auto
  from Cons.prems(3) ku k' have fresh: "k \<notin> fst ` set acc" by auto
  have step: "translate_items w a (kv # d) acc st = translate_items w a d (acc @ [(k, u)]) st"
    unfolding kv by (simp only: replay_step[OF G E ex g sk] dict_set_fresh[OF fresh])
  from Cons.prems(2) ku k' have knew: "k \<notin> fst ` set new" and dist: "distinct (map fst new)"
    by auto
  from Cons.prems(3) knew have disj: "fst ` set new \<inter> fst ` set (acc @ [(k, u)]) = {}"
    by auto
  from Cons.prems(1) have all: "\<forall>ku \<in> set new. dict_get ex (fst ku) = Some (snd ku)
      \<and> dict_get g (fst ku) = Some (snd ku)" by simp
  from Cons.IH[OF all dist disj] step ku k' show ?case by simp
qed

subsection \<open>The cases of translating one string\<close>

lemma lookup_cases:
  "(c \<noteq> None \<and> (\<exists>res. py_getitem G s = Inr res)) \<or> (c \<noteq> None \<and> py_getitem G s = Inl TypeError)
     \<or> (c = None \<or> py_getitem G s = Inl KeyError)"
  using py_getitem_errors[of G s] by (cases "py_getitem G s") auto

lemma translate_string_hit:
  "c \<noteq> None \<Longrightarrow> py_getitem G s = Inr res
     \<Longrightarrow> translate_string U S P G (JStr s) lang sl c st = (Inr res, st @ [Printed (UsingCache s res)])"
  by (simp add: translate_string_def)

lemma translate_string_type_error:
  "c \<noteq> None \<Longrightarrow> py_getitem G s = Inl TypeError
     \<Longrightarrow> translate_string U S P G (JStr s) lang sl c st = (Inl TypeError, st)"
  by (simp add: translate_string_def)

lemma translate_string_no_sleep:
  "c = None \<or> py_getitem G s = Inl KeyError \<Longrightarrow> S sl = Some e
     \<Longrightarrow> translate_string U S P G (JStr s) lang sl c st = (Inl e, st)"
  by (auto simp: translate_string_def)

lemma read_translation_result:
  "\<exists>evs. snd (read_translation P s rd st) = st @ evs \<and> requests evs = []
         \<and> (\<forall>v. fst (read_translation P s rd st) = Inr v \<longrightarrow> is_string v)"
  by (auto simp: read_translation_def Let_def split: sum.splits)

lemma translate_string_request:
  assumes miss: "c = None \<or> py_getitem G s = Inl KeyError" and ok: "S sl = None"
  shows "\<exists>tail. snd (translate_string U S P G (JStr s) lang sl c st)
                  = st @ [Slept sl, Requested lang s] @ tail
           \<and> requests tail = []
           \<and> (\<forall>v. fst (translate_string U S P G (JStr s) lang sl c st) = Inr v \<longrightarrow> is_string v)"
proof -
  let ?st = "st @ [Slept sl, Requested lang s]"
  have look: "(if c \<noteq> None then py_getitem G s else Inl KeyError) = Inl KeyError"
    using miss by auto
  show ?thesis
  proof (cases "urlopen (U st lang s)")
    case (Inl e)
    then show ?thesis using look ok by (simp add: translate_string_def)
  next
    case (Inr sb)
    obtain status body where sb: "sb = (status, body)" by (cases sb)
    show ?thesis
    proof (cases "status \<noteq> 200")
      case True
      with Inr sb look ok show ?thesis by (simp add: translate_string_def)
    next
      case ok200: False
      show ?thesis
      proof (cases body)
        case None
        with ok200 Inr sb look ok show ?thesis by (simp add: translate_string_def)
      next
        case (Some rd)
        from read_translation_result[of P s rd ?st] obtain evs where
          rt: "snd (read_translation P s rd ?st) = ?st @ evs" "requests evs = []"
              "\<forall>v. fst (read_translation P s rd ?st) = Inr v \<longrightarrow> is_string v"
          by blast
        show ?thesis
        proof (cases "py_in ''translations'' rd")
          case bad: (Inl e')
          with Some ok200 Inr sb look ok show ?thesis by (simp add: translate_string_def)
        next
          case found: (Inr b)
          with rt Some ok200 Inr sb look ok show ?thesis
            by (cases b) (simp_all add: translate_string_def)
        qed
      qed
    qed
  qed
qed

subsection \<open>The requests of a run\<close>

lemma translate_string_trace:
  "\<exists>evs. snd (translate_string U S P G (JStr s) lang sl c st) = st @ evs
         \<and> (c \<noteq> None \<longrightarrow> (\<forall>t \<in> set (requests evs). py_getitem G t = Inl KeyError))"
proof -
  consider (hit) res where "c \<noteq> None" "py_getitem G s = Inr res"
    | (bad) "c \<noteq> None" "py_getitem G s = Inl TypeError"
    | (miss) "c = None \<or> py_getitem G s = Inl KeyError"
    using lookup_cases[of c G s] by blast
  then show ?thesis
  proof cases
    case hit
    then show ?thesis by (simp add: translate_string_hit)
  next
    case bad
    then show ?thesis by (simp add: translate_string_type_error)
  next
    case miss
    show ?thesis
    proof (cases "S sl")
      case (Some e)
      with miss show ?thesis by (simp add: translate_string_no_sleep)
    next
      case None
      have "\<exists>tail. snd (translate_string U S P G (JStr s) lang sl c st)
                  = st @ [Slept sl, Requested lang s] @ tail
           \<and> requests tail = []
           \<and> (\<forall>v. fst (translate_string U S P G (JStr s) lang sl c st) = Inr v \<longrightarrow> is_string v)"
        using miss None by (rule translate_string_request)
      then obtain tail where
        t: "snd (translate_string U S P G (JStr s) lang sl c st) = st @ [Slept sl, Requested lang s] @ tail"
           "requests tail = []" by blast
      show ?thesis
        using t miss
        by (intro exI[of _ "[Slept sl, Requested lang s] @ tail"]) (auto simp: requests_append)
    qed
  qed
qed

lemma requests_only_on_miss:
  assumes on: "cache a \<noteq> None"
  shows "\<exists>evs. snd (iterate_translate w a T st) = st @ evs
           \<and> (\<forall>t \<in> set (requests evs). py_getitem (GLOBAL_CACHE w) t = Inl KeyError)"
proof (induction T arbitrary: st)
  case (JStr s)
  show ?case
    using translate_string_trace[of "server w" "time_sleep w" "py_str w" "GLOBAL_CACHE w" s
        "target_locale a" "sleep a" "cache a" st] on
    by (cases "s = []") auto
next
  case (JArr xs)
  have "\<exists>evs. snd (translate_list w a xs st) = st @ evs
           \<and> (\<forall>t \<in> set (requests evs). py_getitem (GLOBAL_CACHE w) t = Inl KeyError)"
    by (rule translate_list_trace) (auto simp: requests_append intro: JArr.IH)
  then show ?case by (auto split: sum.splits prod.splits)
next
  case (JObj d)
  have "\<exists>evs. snd (translate_items w a d [] st) = st @ evs
           \<and> (\<forall>t \<in> set (requests evs). py_getitem (GLOBAL_CACHE w) t = Inl KeyError)"
  proof (rule translate_items_trace)
    fix k v s assume "(k, v) \<in> set d"
    then show "\<exists>evs. snd (iterate_translate w a v s) = s @ evs
           \<and> (\<forall>t \<in> set (requests evs). py_getitem (GLOBAL_CACHE w) t = Inl KeyError)"
      using JObj.IH[of "(k, v)" v s] by simp
  qed (auto simp: requests_append)
  then show ?case by (auto split: sum.splits prod.splits)
qed auto

subsection \<open>One request for every reached string that misses the cache\<close>

lemma accounted_same: "accounted [] (r, st) st"
  by (simp add: accounted_def)

lemma accounted_fail: "accounted p (Inl e, st) st"
  by (simp add: accounted_def)

lemma accounted_result: "accounted p (r, s) st \<Longrightarrow> (\<And>out. r' = Inr out \<Longrightarrow> \<exists>y. r = Inr y)
    \<Longrightarrow> accounted p (r', s) st"
  by (fastforce simp: accounted_def)

lemma accounted_abort: "accounted p1 (r, s1) st \<Longrightarrow> accounted (p1 @ p2) (Inl e, s1) st"
  by (auto simp: accounted_def)

lemma accounted_seq:
  assumes one: "accounted p1 (Inr x, s1) st" and two: "accounted p2 (r, s2) s1"
  shows "accounted (p1 @ p2) (r, s2) st"
proof -
  from one obtain e1 where e1: "s1 = st @ e1" "requests e1 = p1"
    by (auto simp: accounted_def)
  from two obtain e2 rest where e2: "s2 = s1 @ e2" "p2 = requests e2 @ rest"
    "\<forall>out. r = Inr out \<longrightarrow> requests e2 = p2"
    by (auto simp: accounted_def)
  show ?thesis
    unfolding accounted_def
    using e1 e2 by (intro exI[of _ "e1 @ e2"]) (auto simp: requests_append)
qed

lemma translate_string_accounted:
  assumes "s \<noteq> []"
  shows "accounted (pending w a (JStr s))
           (translate_string (server w) (time_sleep w) (py_str w) (GLOBAL_CACHE w) (JStr s)
              (target_locale a) (sleep a) (cache a) st) st"
proof -
  let ?run = "translate_string (server w) (time_sleep w) (py_str w) (GLOBAL_CACHE w) (JStr s)
              (target_locale a) (sleep a) (cache a) st"
  consider (hit) res where "cache a \<noteq> None" "py_getitem (GLOBAL_CACHE w) s = Inr res"
    | (bad) "cache a \<noteq> None" "py_getitem (GLOBAL_CACHE w) s = Inl TypeError"
    | (miss) "cache a = None \<or> py_getitem (GLOBAL_CACHE w) s = Inl KeyError"
    using lookup_cases[of "cache a" "GLOBAL_CACHE w" s] by blast
  then show ?thesis
  proof cases
    case hit
    with assms show ?thesis by (simp add: translate_string_hit accounted_def)
  next
    case bad
    with assms show ?thesis by (simp add: translate_string_type_error accounted_def)
  next
    case miss
    then have p: "pending w a (JStr s) = [s]" using assms by auto
    show ?thesis
    proof (cases "time_sleep w (sleep a)")
      case (Some e)
      with miss show ?thesis by (simp add: translate_string_no_sleep accounted_fail)
    next
      case None
      have "\<exists>tail. snd ?run = st @ [Slept (sleep a), Requested (target_locale a) s] @ tail
           \<and> requests tail = [] \<and> (\<forall>v. fst ?run = Inr v \<longrightarrow> is_string v)"
        using miss None by (rule translate_string_request)
      then obtain tail where
        t: "snd ?run = st @ [Slept (sleep a), Requested (target_locale a) s] @ tail"
           "requests tail = []" by blast
      show ?thesis
        unfolding accounted_def p using t
        by (intro exI[of _ "[Slept (sleep a), Requested (target_locale a) s] @ tail"])
           (simp add: requests_append)
    qed
  qed
qed

lemma translate_items_accounted:
  "(\<And>k v s. (k, v) \<in> set d \<Longrightarrow> accounted (pending w a v) (iterate_translate w a v s) s)
     \<Longrightarrow> accounted (pending_items w a d) (translate_items w a d acc st) st"
proof (induction d arbitrary: acc st)
  case Nil
  show ?case by (simp add: accounted_same)
next
  case (Cons kv d)
  obtain k v where kv: "kv = (k, v)" by (cases kv)
  have rest: "accounted (pending_items w a d) (translate_items w a d acc' s) s" for acc' s
  proof (rule Cons.IH)
    fix k' v' s0 assume "(k', v') \<in> set d"
    then show "accounted (pending w a v') (iterate_translate w a v' s0) s0"
      using Cons.prems[of k' v' s0] by simp
  qed
  have walk: "accounted (pending w a v) (iterate_translate w a v st) st"
    using Cons.prems[of k v st] kv by simp
  have prefix_fail: "accounted (p @ pending_items w a d) (Inl e, st) st" for p e
    by (rule accounted_fail)
  have direct: "accounted ([] @ pending_items w a d) (translate_items w a d acc' st) st" for acc'
    using rest[of acc' st] by simp
  show ?case
  proof (cases "k \<in> set (skip a)")
    case True
    with direct[of "dict_set acc k v"] kv show ?thesis by simp
  next
    case nskip: False
    show ?thesis
    proof (cases "keep_applies (keep a) (existing a) k")
      case (Inl e)
      with nskip kv show ?thesis by (simp add: accounted_fail)
    next
      case (Inr b)
      show ?thesis
      proof (cases b)
        case True
        with Inr nskip kv direct show ?thesis
          by (cases "py_getitem (existing a) k") (simp_all add: accounted_fail)
      next
        case False
        show ?thesis
        proof (cases "py_in k (GLOBAL_CACHE w)")
          case bad: (Inl e)
          with False Inr nskip kv show ?thesis by (simp add: accounted_fail)
        next
          case found: (Inr c)
          show ?thesis
          proof (cases c)
            case True
            with found False Inr nskip kv direct show ?thesis
              by (cases "py_getitem (GLOBAL_CACHE w) k") (simp_all add: accounted_fail)
          next
            case nocache: False
            have cond: "\<not> (k \<in> set (skip a) \<or> keep_applies (keep a) (existing a) k = Inr True
                \<or> py_in k (GLOBAL_CACHE w) = Inr True)"
              using nskip Inr False found nocache by simp
            show ?thesis
            proof (cases "iterate_translate w a v st")
              case (Pair r s1)
              show ?thesis
              proof (cases r)
                case (Inl e)
                from walk Pair Inl have "accounted (pending w a v @ pending_items w a d) (Inl e, s1) st"
                  by (simp add: accounted_abort)
                with Pair Inl cond found nocache False Inr nskip kv show ?thesis by simp
              next
                case (Inr u)
                from walk Pair Inr have one: "accounted (pending w a v) (Inr u, s1) st" by simp
                obtain r2 s2 where two: "translate_items w a d (dict_set acc k u) s1 = (r2, s2)"
                  by (cases "translate_items w a d (dict_set acc k u) s1")
                from rest[of "dict_set acc k u" s1] two
                have "accounted (pending_items w a d) (r2, s2) s1" by simp
                from accounted_seq[OF one this]
                show ?thesis
                  using Pair Inr two cond found nocache False \<open>keep_applies (keep a) (existing a) k = Inr b\<close>
                    nskip kv by simp
              qed
            qed
          qed
        qed
      qed
    qed
  qed
qed

lemma translate_list_accounted:
  "(\<And>x s. x \<in> set xs \<Longrightarrow> accounted (pending w a x) (iterate_translate w a x s) s)
     \<Longrightarrow> accounted (pending_elems w a xs) (translate_list w a xs st) st"
proof (induction xs arbitrary: st)
  case Nil
  show ?case by (simp add: accounted_same)
next
  case (Cons x xs)
  have walk: "accounted (pending w a x) (iterate_translate w a x st) st"
    using Cons.prems[of x st] by simp
  have rest: "accounted (pending_elems w a xs) (translate_list w a xs s) s" for s
  proof (rule Cons.IH)
    fix x' s0 assume "x' \<in> set xs"
    then show "accounted (pending w a x') (iterate_translate w a x' s0) s0"
      using Cons.prems[of x' s0] by simp
  qed
  show ?case
  proof (cases "iterate_translate w a x st")
    case (Pair r s1)
    show ?thesis
    proof (cases r)
      case (Inl e)
      from walk Pair Inl have "accounted (pending w a x @ pending_elems w a xs) (Inl e, s1) st"
        by (simp add: accounted_abort)
      with Pair Inl show ?thesis by simp
    next
      case (Inr u)
      from walk Pair Inr have one: "accounted (pending w a x) (Inr u, s1) st" by simp
      obtain r2 s2 where two: "translate_list w a xs s1 = (r2, s2)"
        by (cases "translate_list w a xs s1")
      from rest[of s1] two have "accounted (pending_elems w a xs) (r2, s2) s1" by simp
      from accounted_seq[OF one this]
      have seq: "accounted (pending w a x @ pending_elems w a xs) (r2, s2) st" .
      show ?thesis
      proof (cases r2)
        case (Inl e)
        with seq Pair Inr two show ?thesis by simp
      next
        case inner: (Inr vs)
        have "accounted (pending w a x @ pending_elems w a xs) (Inr (u # vs), s2) st"
          by (rule accounted_result[OF seq]) (simp add: inner)
        with Pair Inr two inner show ?thesis by simp
      qed
    qed
  qed
qed

lemma traversal_accounted: "accounted (pending w a T) (iterate_translate w a T st) st"
proof (induction T arbitrary: st)
  case (JStr s)
  show ?case
    using translate_string_accounted[of s w a st]
    by (cases "s = []") (simp_all add: accounted_same)
next
  case (JArr xs)
  have inner: "accounted (pending_elems w a xs) (translate_list w a xs st) st"
    by (rule translate_list_accounted) (rule JArr.IH)
  obtain r s1 where run: "translate_list w a xs st = (r, s1)"
    by (cases "translate_list w a xs st")
  show ?case
  proof (cases r)
    case (Inl e)
    have "accounted (pending_elems w a xs) (Inl e :: error + json, s1) st"
      by (rule accounted_result[of _ r]) (use inner run in simp_all)
    with run Inl show ?thesis by simp
  next
    case (Inr ys)
    have "accounted (pending_elems w a xs) (Inr (JArr ys), s1) st"
      by (rule accounted_result[of _ r]) (use inner run Inr in simp_all)
    with run Inr show ?thesis by simp
  qed
next
  case (JObj d)
  have inner: "accounted (pending_items w a d) (translate_items w a d [] st) st"
  proof (rule translate_items_accounted)
    fix k v s assume "(k, v) \<in> set d"
    then show "accounted (pending w a v) (iterate_translate w a v s) s"
      using JObj.IH[of "(k, v)" v s] by simp
  qed
  obtain r s1 where run: "translate_items w a d [] st = (r, s1)"
    by (cases "translate_items w a d [] st")
  show ?case
  proof (cases r)
    case (Inl e)
    have "accounted (pending_items w a d) (Inl e :: error + json, s1) st"
      by (rule accounted_result[of _ r]) (use inner run in simp_all)
    with run Inl show ?thesis by simp
  next
    case (Inr res)
    have "accounted (pending_items w a d) (Inr (JObj res), s1) st"
      by (rule accounted_result[of _ r]) (use inner run Inr in simp_all)
    with run Inr show ?thesis by simp
  qed
qed (simp_all add: accounted_same)

subsection \<open>The result follows the rules\<close>










subsection \<open>Places reached by the traversal\<close>






subsection \<open>A whole run\<close>

lemma main_run_success:
  assumes "main_run U S P data lang sl skip_opt keep_opt True nocache fs st = (Inr r, fs', st')"
  obtains G where "load_cache True (cache_json fs) nocache = Inr G"
    and "iterate_translate \<lparr>server = U, time_sleep = S, py_str = P, GLOBAL_CACHE = G\<rparr>
           \<lparr>target_locale = lang, sleep = sl,
            skip = (case skip_opt of None \<Rightarrow> [] | Some ks \<Rightarrow> ks),
            keep = (case keep_opt of None \<Rightarrow> [] | Some ks \<Rightarrow> ks),
            existing = (case output_json fs of None \<Rightarrow> JObj [] | Some e \<Rightarrow> e),
            cache = Some True\<rparr> data st = (Inr r, st')"
    and "fs' = fs\<lparr>output_json := Some r, cache_json := Some r\<rparr>"
  using assms
  by (auto simp: main_run_def get_strings_from_file_def save_results_file_def Let_def
           split: sum.splits prod.splits)

lemma warm_cache_silent:
  assumes first: "main_run U S P (JObj d) lang sl skip1 keep1 True nocache1 fs0 st0 = (Inr r1, fs1, st1)"
    and valid: "\<forall>ns. nocache2 = Some ns \<longrightarrow> set ns \<inter> set (dict_keys d) = {}"
  shows "snd (snd (main_run U' S' P' (JObj d) lang' sl' skip2 keep2 True nocache2 fs1 st)) = st"
proof -
  from first obtain G1 a1 where
    run1: "iterate_translate \<lparr>server = U, time_sleep = S, py_str = P, GLOBAL_CACHE = G1\<rparr> a1 (JObj d) st0 = (Inr r1, st1)"
    and fs1: "fs1 = fs0\<lparr>output_json := Some r1, cache_json := Some r1\<rparr>"
    by (rule main_run_success)
  from run1 obtain res1 where r1: "r1 = JObj res1"
    and items1: "translate_items \<lparr>server = U, time_sleep = S, py_str = P, GLOBAL_CACHE = G1\<rparr> a1 d [] st0 = (Inr res1, st1)"
    by (rule object_run)
  from translate_items_keys[OF items1] have keys1: "fst ` set res1 = fst ` set d" by simp
  from load_cache_warm[OF valid, of res1] obtain g where
    load: "load_cache True (Some (JObj res1)) nocache2 = Inr (JObj g)"
    and keeps: "\<forall>kv \<in> set res1. fst kv \<in> set (dict_keys d) \<longrightarrow> kv \<in> set g"
    by blast
  have hit: "\<forall>k \<in> fst ` set d. py_in k (JObj g) = Inr True"
  proof
    fix k assume "k \<in> fst ` set d"
    with keys1 have "k \<in> fst ` set res1" by simp
    then obtain kv where "kv \<in> set res1" "fst kv = k" by blast
    with keeps \<open>k \<in> fst ` set d\<close> have "kv \<in> set g" by (auto simp: dict_keys_def)
    with \<open>fst kv = k\<close> show "py_in k (JObj g) = Inr True" by (auto simp: dict_keys_def)
  qed
  have silent: "snd (translate_items \<lparr>server = U', time_sleep = S', py_str = P', GLOBAL_CACHE = JObj g\<rparr> a2 d [] st) = st" for a2
    by (rule cached_keys_silent) (use hit in simp)
  show ?thesis
    using silent
    by (simp add: main_run_def fs1 r1 load get_strings_from_file_def split: sum.splits prod.splits)
       (metis snd_conv)
qed

subsection \<open>Concrete values\<close>

text \<open>The definitions a concrete run unfolds.\<close>

lemmas demo = demo_world_def demo_args_def hola_service_def blank_str_def keep_applies_def
  dict_get_def dict_keys_def translate_string_def read_translation_def decode_text_def refusing_service_def null_service_def usual_sleep_def urlopen_def

text \<open>The sample \<^verbatim>\<open>time.sleep\<close> at a few delays (0, 0.01, -0.0, -1.0, the smallest
  negative number, the two NaNs, the two infinities, 1e10 and the bounds), and a run
  started with \<^verbatim>\<open>-s -1\<close>: it ends with \<^verbatim>\<open>ValueError\<close> before anything is sent.\<close>

lemma usual_sleep_samples:
  "usual_sleep 0 = None"
  "usual_sleep 0x3F847AE147AE147B = None"
  "usual_sleep 0x8000000000000000 = None"
  "usual_sleep 0xBFF0000000000000 = Some ValueError"
  "usual_sleep 0x8000000000000001 = Some ValueError"
  "usual_sleep 0x7FF8000000000000 = Some ValueError"
  "usual_sleep 0xFFF8000000000000 = Some ValueError"
  "usual_sleep 0x7FF0000000000000 = Some OverflowError"
  "usual_sleep 0xFFF0000000000000 = Some OverflowError"
  "usual_sleep 0x4202A05F20000000 = Some OverflowError"
  "usual_sleep 0x41FFFFFFFFFFFFFF = None"
  "usual_sleep 0x42012E0BE826D694 = Some OSError"
  "usual_sleep 0xC2012E0BE826D695 = Some ValueError"
  by (simp_all add: usual_sleep_def)

lemma negative_delay_raises:
  "iterate_translate demo_world (demo_args\<lparr>sleep := 0xBFF0000000000000\<rparr>)
      (JObj [(''greeting'', JStr ''Hello'')]) [] = (Inl ValueError, [])"
  by (simp add: demo)

section \<open>Leaves that are never sent to the service\<close>

text \<open>
  Claim C9. A leaf that is a number, a boolean or \<^verbatim>\<open>null\<close> comes back as it is, and
  nothing happens on the way: no delay, no request, no message. For \<^verbatim>\<open>null\<close> this is the
  end of the function reached without a \<^verbatim>\<open>return\<close>; no error is raised.
\<close>

theorem non_string_leaf_unchanged:
  "non_string_leaf v \<Longrightarrow> iterate_translate w a v st = (Inr v, st)"
  by (cases v) simp_all

theorem non_string_leaf_unchanged_witness:
  "non_string_leaf JNull \<and> iterate_translate demo_world demo_args JNull [] = (Inr JNull, [])"
  using non_string_leaf_unchanged [of JNull demo_world demo_args "[]"] by simp

text \<open>
  Claim C8. The empty string comes back as the empty string, and the trace is unchanged:
  the traversal returns before \<^verbatim>\<open>translate_string\<close> is called, so there is neither a
  delay nor a request.
\<close>

theorem empty_string_identity:
  "iterate_translate w a (JStr '''') st = (Inr (JStr ''''), st)"
  by simp

section \<open>Skip and keep\<close>

text \<open>
  Claim C5. Let \<open>k\<close> be in the skip list and let an object hold \<open>k\<close> with value \<open>v\<close>,
  after the entries \<open>xs\<close> and before the entries \<open>ys\<close>. Whatever the cache, the keep list
  and the existing output are, the traversal of the object is the loop over \<open>xs\<close>, then the
  assignment of \<open>v\<close> itself at \<open>k\<close> with the trace left as it was, then the loop over
  \<open>ys\<close>; and when the traversal returns (the keys of a dictionary being pairwise
  different), the value at \<open>k\<close> in the result is \<open>v\<close>.
\<close>

theorem skip_copies_verbatim:
  assumes "k \<in> set (skip a)"
  shows "iterate_translate w a (JObj (xs @ (k, v) # ys)) st =
           (case translate_items w a xs [] st of
              (Inl e, s) \<Rightarrow> (Inl e, s)
            | (Inr r, s) \<Rightarrow>
                (case translate_items w a ys (dict_set r k v) s of
                   (Inl e, s') \<Rightarrow> (Inl e, s')
                 | (Inr res, s') \<Rightarrow> (Inr (JObj res), s')))
         \<and> (k \<notin> fst ` set ys \<longrightarrow>
              iterate_translate w a (JObj (xs @ (k, v) # ys)) st = (Inr out, st') \<longrightarrow>
              (\<exists>res. out = JObj res \<and> dict_get res k = Some v))"
proof (intro conjI impI)
  show "iterate_translate w a (JObj (xs @ (k, v) # ys)) st =
           (case translate_items w a xs [] st of
              (Inl e, s) \<Rightarrow> (Inl e, s)
            | (Inr r, s) \<Rightarrow>
                (case translate_items w a ys (dict_set r k v) s of
                   (Inl e, s') \<Rightarrow> (Inl e, s')
                 | (Inr res, s') \<Rightarrow> (Inr (JObj res), s')))"
    by (simp only: object_split items_step_skip[OF assms])
next
  assume "k \<notin> fst ` set ys"
    and "iterate_translate w a (JObj (xs @ (k, v) # ys)) st = (Inr out, st')"
  then show "\<exists>res. out = JObj res \<and> dict_get res k = Some v"
    using object_value_at[of w a xs k v ys st out st' v] items_step_skip[OF assms] by blast
qed

theorem skip_copies_verbatim_witness:
  "''secret_code'' \<in> set (skip demo_args)
   \<and> ''secret_code'' \<notin> fst ` set [(''name'', JStr ''World'')]
   \<and> iterate_translate demo_world demo_args
        (JObj ([] @ (''secret_code'', JStr ''XJ-42'') # [(''name'', JStr ''World'')])) []
      = (Inr (JObj [(''secret_code'', JStr ''XJ-42''), (''name'', JStr ''Mundo'')]), [])
   \<and> dict_get [(''secret_code'', JStr ''XJ-42''), (''name'', JStr ''Mundo'')] ''secret_code''
      = Some (JStr ''XJ-42'')"
  using skip_copies_verbatim [of "''secret_code''" demo_args demo_world "[]" "JStr ''XJ-42''"
      "[(''name'', JStr ''World'')]" "[]"
      "JObj [(''secret_code'', JStr ''XJ-42''), (''name'', JStr ''Mundo'')]" "[]"]
  by (simp add: demo)

text \<open>
  Claim C6. Let \<open>k\<close> be in the keep list and not in the skip list, and let the existing
  output hold at \<open>k\<close> a value \<open>e\<close> that is neither \<^verbatim>\<open>null\<close> nor the empty string. Then
  the traversal of an object holding \<open>k\<close> is the loop over the entries before \<open>k\<close>, the
  assignment of \<open>e\<close> at \<open>k\<close> with the trace left as it was (so no request is made for the
  value the input has there), and the loop over the entries after \<open>k\<close>; when it returns,
  the value at \<open>k\<close> in the result is \<open>e\<close>.
\<close>

theorem keep_reuses_existing:
  assumes "k \<notin> set (skip a)" "k \<in> set (keep a)" "py_getitem (existing a) k = Inr e"
    "e \<noteq> JNull" "e \<noteq> JStr ''''"
  shows "iterate_translate w a (JObj (xs @ (k, v) # ys)) st =
           (case translate_items w a xs [] st of
              (Inl e, s) \<Rightarrow> (Inl e, s)
            | (Inr r, s) \<Rightarrow>
                (case translate_items w a ys (dict_set r k e) s of
                   (Inl e, s') \<Rightarrow> (Inl e, s')
                 | (Inr res, s') \<Rightarrow> (Inr (JObj res), s')))
         \<and> (k \<notin> fst ` set ys \<longrightarrow>
              iterate_translate w a (JObj (xs @ (k, v) # ys)) st = (Inr out, st') \<longrightarrow>
              (\<exists>res. out = JObj res \<and> dict_get res k = Some e))"
proof (intro conjI impI)
  show "iterate_translate w a (JObj (xs @ (k, v) # ys)) st =
           (case translate_items w a xs [] st of
              (Inl e, s) \<Rightarrow> (Inl e, s)
            | (Inr r, s) \<Rightarrow>
                (case translate_items w a ys (dict_set r k e) s of
                   (Inl e, s') \<Rightarrow> (Inl e, s')
                 | (Inr res, s') \<Rightarrow> (Inr (JObj res), s')))"
    by (simp only: object_split items_step_keep[OF assms])
next
  assume "k \<notin> fst ` set ys"
    and "iterate_translate w a (JObj (xs @ (k, v) # ys)) st = (Inr out, st')"
  then show "\<exists>res. out = JObj res \<and> dict_get res k = Some e"
    using object_value_at[of w a xs k v ys st out st' e] items_step_keep[OF assms] by blast
qed

theorem keep_reuses_existing_witness:
  "''name'' \<notin> set (skip demo_args) \<and> ''name'' \<in> set (keep demo_args)
   \<and> py_getitem (existing demo_args) ''name'' = Inr (JStr ''Mundo'')
   \<and> JStr ''Mundo'' \<noteq> JNull \<and> JStr ''Mundo'' \<noteq> JStr ''''
   \<and> ''name'' \<notin> fst ` set [(''count'', JInt 3)]
   \<and> iterate_translate demo_world demo_args
        (JObj ([] @ (''name'', JStr ''World'') # [(''count'', JInt 3)])) []
      = (Inr (JObj [(''name'', JStr ''Mundo''), (''count'', JInt 3)]), [])
   \<and> dict_get [(''name'', JStr ''Mundo''), (''count'', JInt 3)] ''name'' = Some (JStr ''Mundo'')"
  using keep_reuses_existing [of "''name''" demo_args "JStr ''Mundo''" demo_world "[]"
      "JStr ''World''" "[(''count'', JInt 3)]" "[]"
      "JObj [(''name'', JStr ''Mundo''), (''count'', JInt 3)]" "[]"]
  by (simp add: demo)

text \<open>
  Claim C3, at the input where the code departs from it: the keep list holds \<open>a\<close>, the
  existing output is the non-empty dictionary \<^verbatim>\<open>{"b": "y"}\<close>, and the document is
  \<^verbatim>\<open>{"a": "x"}\<close>. The subscript \<^verbatim>\<open>existing[key]\<close> raises \<^verbatim>\<open>KeyError\<close>, and the
  traversal ends with it.
\<close>

theorem keep_lookup_of_absent_key_raises:
  "iterate_translate w
     \<lparr>target_locale = ''ES'', sleep = 0, skip = [], keep = [''a''],
      existing = JObj [(''b'', JStr ''y'')], cache = Some True\<rparr>
     (JObj [(''a'', JStr ''x'')]) st = (Inl KeyError, st)"
  by (simp add: keep_applies_def dict_get_def)



section \<open>A failed translation\<close>

text \<open>
  Claim C2, at the inputs where the code departs from it. A service that answers with
  status 403: \<^verbatim>\<open>request.urlopen\<close> raises \<^verbatim>\<open>HTTPError\<close>, the test of
  \<^verbatim>\<open>response.status\<close> is never reached, and the traversal of
  \<^verbatim>\<open>{"greeting": "Hello", "count": 3}\<close> ends with the error after one request. A service
  that answers with status 200 and the body \<^verbatim>\<open>null\<close>, which has no \<^verbatim>\<open>translations\<close> field:
  the membership test raises \<^verbatim>\<open>TypeError\<close>, and the traversal ends with it.
\<close>

theorem non_success_response_aborts:
  "iterate_translate (demo_world\<lparr>server := refusing_service\<rparr>) demo_args
      (JObj [(''greeting'', JStr ''Hello''), (''count'', JInt 3)]) []
     = (Inl HTTPError, [Slept 0, Requested ''ES'' ''Hello''])
   \<and> iterate_translate (demo_world\<lparr>server := null_service\<rparr>) demo_args
      (JObj [(''greeting'', JStr ''Hello''), (''count'', JInt 3)]) []
     = (Inl TypeError, [Slept 0, Requested ''ES'' ''Hello''])"
  by (simp add: demo)

section \<open>The shape of the result\<close>




section \<open>The cache across runs and within a run\<close>

text \<open>
  Claim C4, as stated, fails in its second half: nothing is added to \<^verbatim>\<open>GLOBAL_CACHE\<close>
  during a run, so a string that occurs at two leaves and is not in the cache is sent to the
  service twice.
\<close>

theorem one_call_per_string_counterexample:
  "requests (snd (iterate_translate demo_world demo_args
      (JObj [(''a'', JStr ''Hello''), (''b'', JStr ''Hello'')]) [])) = [''Hello'', ''Hello'']"
  by (simp add: demo)

text \<open>
  Claim C4, amended. Let a first run on an object document succeed with caching on; it
  writes its result to the cache file. A second run on the same document, whatever its skip
  and keep lists, whatever the service, and as long as \<^verbatim>\<open>--nocache\<close> names no top-level
  key of the document, leaves the trace as it was: it waits for nothing and sends nothing,
  every top-level key being found in the cache unless the skip or the keep branch took it
  first. Within any single run with caching on, every text sent to the service is one that
  the cache does not hold as a key. And the texts a traversal sends are, in order and with
  one request each, the non-empty string leaves it reaches that caching does not find in
  the cache: all of them when it returns a tree, a beginning of them when it ends with an
  error. A text at several such leaves is sent once for each.
\<close>

theorem warm_cache_makes_no_call:
  assumes first: "main_run U S P (JObj d) lang sl skip1 keep1 True nocache1 fs0 st0 = (Inr r1, fs1, st1)"
    and valid: "\<forall>ns. nocache2 = Some ns \<longrightarrow> set ns \<inter> set (dict_keys d) = {}"
  shows "snd (snd (main_run U' S' P' (JObj d) lang' sl' skip2 keep2 True nocache2 fs1 st)) = st
       \<and> (cache a \<noteq> None \<longrightarrow>
            (\<exists>evs. snd (iterate_translate w a T s0) = s0 @ evs
               \<and> (\<forall>t \<in> set (requests evs). py_getitem (GLOBAL_CACHE w) t = Inl KeyError)))
       \<and> (\<exists>evs. snd (iterate_translate w a T s0) = s0 @ evs
             \<and> (\<exists>rest. pending w a T = requests evs @ rest)
             \<and> (\<forall>out. fst (iterate_translate w a T s0) = Inr out \<longrightarrow> requests evs = pending w a T))"
  using warm_cache_silent[OF first valid] requests_only_on_miss
    traversal_accounted[of w a T s0, unfolded accounted_def]
  by blast

theorem warm_cache_makes_no_call_witness:
  "main_run hola_service usual_sleep blank_str
      (JObj [(''greeting'', JStr ''Hello''), (''count'', JInt 3)])
      ''ES'' 0 None None True None \<lparr>output_json = None, cache_json = None\<rparr> []
     = (Inr (JObj [(''greeting'', JStr ''Hola''), (''count'', JInt 3)]),
        \<lparr>output_json = Some (JObj [(''greeting'', JStr ''Hola''), (''count'', JInt 3)]),
         cache_json = Some (JObj [(''greeting'', JStr ''Hola''), (''count'', JInt 3)])\<rparr>,
        [Slept 0, Requested ''ES'' ''Hello''])
   \<and> snd (snd (main_run hola_service usual_sleep blank_str
        (JObj [(''greeting'', JStr ''Hello''), (''count'', JInt 3)])
        ''ES'' 0 None None True (Some [''other''])
        \<lparr>output_json = Some (JObj [(''greeting'', JStr ''Hola''), (''count'', JInt 3)]),
         cache_json = Some (JObj [(''greeting'', JStr ''Hola''), (''count'', JInt 3)])\<rparr> [])) = []
   \<and> cache demo_args \<noteq> None
   \<and> iterate_translate demo_world demo_args
        (JObj [(''a'', JStr ''Hello''), (''b'', JStr ''Hello'')]) []
      = (Inr (JObj [(''a'', JStr ''Hola''), (''b'', JStr ''Hola'')]),
         [] @ [Slept 0, Requested ''ES'' ''Hello'', Slept 0, Requested ''ES'' ''Hello''])
   \<and> py_getitem (GLOBAL_CACHE demo_world) ''Hello'' = Inl KeyError
   \<and> pending demo_world demo_args (JObj [(''a'', JStr ''Hello''), (''b'', JStr ''Hello'')])
      = [''Hello'', ''Hello'']"
proof -
  let ?d = "[(''greeting'', JStr ''Hello''), (''count'', JInt 3)]"
  let ?r = "JObj [(''greeting'', JStr ''Hola''), (''count'', JInt 3)]"
  let ?fs = "\<lparr>output_json = Some ?r, cache_json = Some ?r\<rparr>"
  let ?T = "JObj [(''a'', JStr ''Hello''), (''b'', JStr ''Hello'')]"
  have first: "main_run hola_service usual_sleep blank_str (JObj ?d) ''ES'' 0 None None True None
      \<lparr>output_json = None, cache_json = None\<rparr> [] = (Inr ?r, ?fs, [Slept 0, Requested ''ES'' ''Hello''])"
    by (simp add: demo main_run_def load_cache_def get_strings_from_file_def save_results_file_def)
  have valid: "\<forall>ns. Some [''other''] = Some ns \<longrightarrow> set ns \<inter> set (dict_keys ?d) = {}"
    by (simp add: dict_keys_def)
  have on: "cache demo_args \<noteq> None" by (simp add: demo)
  have run: "iterate_translate demo_world demo_args ?T []
      = (Inr (JObj [(''a'', JStr ''Hola''), (''b'', JStr ''Hola'')]),
         [] @ [Slept 0, Requested ''ES'' ''Hello'', Slept 0, Requested ''ES'' ''Hello''])"
    by (simp add: demo)
  have miss: "py_getitem (GLOBAL_CACHE demo_world) ''Hello'' = Inl KeyError"
    by (simp add: demo)
  note inst = warm_cache_makes_no_call[OF first valid, where U' = hola_service and S' = usual_sleep
      and P' = blank_str and lang' = "''ES''" and sl' = 0 and ?skip2.0 = None and ?keep2.0 = None
      and st = "[]" and a = demo_args and w = demo_world and T = "?T" and ?s0.0 = "[]"]
  from inst have silent: "snd (snd (main_run hola_service usual_sleep blank_str (JObj ?d) ''ES'' 0
      None None True (Some [''other'']) ?fs [])) = []"
    by blast
  from inst run have "\<exists>evs. [Slept 0, Requested ''ES'' ''Hello'', Slept 0, Requested ''ES'' ''Hello'']
      = evs \<and> requests evs = pending demo_world demo_args ?T"
    by simp
  then have count: "pending demo_world demo_args ?T = [''Hello'', ''Hello'']" by auto
  from first silent on run miss count show ?thesis by simp
qed

section \<open>Running twice\<close>

text \<open>
  Claim C7, as stated, fails when \<^verbatim>\<open>--nocache\<close> names a top-level key whose earlier
  value is empty. The same command is run twice on \<^verbatim>\<open>{"a": "Hello"}\<close> with
  \<^verbatim>\<open>--keep a --nocache a\<close>, starting from a cache file \<^verbatim>\<open>{"Hello": ""}\<close>. The first
  run takes the empty string from the cache and writes \<^verbatim>\<open>{"a": ""}\<close>. In the second run
  the keep branch does not apply to the empty value, the key has been removed from the
  cache, and the string is sent to the service: the output is \<^verbatim>\<open>{"a": "Hola"}\<close>.
\<close>

theorem rerun_after_invalidation_counterexample:
  "main_run hola_service usual_sleep blank_str (JObj [(''a'', JStr ''Hello'')])
      ''ES'' 0 None (Some [''a'']) True (Some [''a''])
      \<lparr>output_json = None, cache_json = Some (JObj [(''Hello'', JStr '''')])\<rparr> []
     = (Inr (JObj [(''a'', JStr '''')]),
        \<lparr>output_json = Some (JObj [(''a'', JStr '''')]),
         cache_json = Some (JObj [(''a'', JStr '''')])\<rparr>,
        [Printed (UsingCache ''Hello'' (JStr ''''))])
   \<and> main_run hola_service usual_sleep blank_str (JObj [(''a'', JStr ''Hello'')])
      ''ES'' 0 None (Some [''a'']) True (Some [''a''])
      \<lparr>output_json = Some (JObj [(''a'', JStr '''')]),
       cache_json = Some (JObj [(''a'', JStr '''')])\<rparr> []
     = (Inr (JObj [(''a'', JStr ''Hola'')]),
        \<lparr>output_json = Some (JObj [(''a'', JStr ''Hola'')]),
         cache_json = Some (JObj [(''a'', JStr ''Hola'')])\<rparr>,
        [Slept 0, Requested ''ES'' ''Hello''])
   \<and> JObj [(''a'', JStr ''Hola'')] \<noteq> JObj [(''a'', JStr '''')]"
  by (simp add: demo main_run_def load_cache_def get_strings_from_file_def save_results_file_def
        dict_pop_def)

text \<open>
  Claim C7, amended. Let a first run on an object document (pairwise different keys) succeed
  with caching on: it writes its result \<open>r1\<close> to the output file and to the cache file.
  A second run on the same document with the same skip list, reading these files, with
  \<^verbatim>\<open>--nocache\<close> naming no top-level key, returns \<open>r1\<close> again, writes the same contents to
  both files, and leaves the trace as it was. This holds for any keep list, in particular
  for the list of all top-level keys: where the keep branch does not apply because the
  earlier value is \<^verbatim>\<open>null\<close> or empty, the cache branch supplies the same value. The text
  of the output file is \<^verbatim>\<open>json.dump\<close> of this value, so equal values are equal bytes.
\<close>

theorem rerun_is_identical:
  assumes first: "main_run U S P (JObj d) lang sl skip_opt keep1 True nocache1 fs0 st0 = (Inr r1, fs1, st1)"
    and dist: "distinct (dict_keys d)"
    and valid: "\<forall>ns. nocache2 = Some ns \<longrightarrow> set ns \<inter> set (dict_keys d) = {}"
  shows "main_run U' S' P' (JObj d) lang' sl' skip_opt keep2 True nocache2 fs1 st = (Inr r1, fs1, st)"
proof -
  let ?sk = "case skip_opt of None \<Rightarrow> [] | Some ks \<Rightarrow> ks"
  from first obtain G1 where
    run1: "iterate_translate \<lparr>server = U, time_sleep = S, py_str = P, GLOBAL_CACHE = G1\<rparr>
           \<lparr>target_locale = lang, sleep = sl, skip = ?sk,
            keep = (case keep1 of None \<Rightarrow> [] | Some ks \<Rightarrow> ks),
            existing = (case output_json fs0 of None \<Rightarrow> JObj [] | Some e \<Rightarrow> e),
            cache = Some True\<rparr> (JObj d) st0 = (Inr r1, st1)"
      (is "iterate_translate ?w1 ?a1 _ _ = _")
    and fs1: "fs1 = fs0\<lparr>output_json := Some r1, cache_json := Some r1\<rparr>"
    by (rule main_run_success)
  from run1 obtain res1 where r1: "r1 = JObj res1"
    and items1: "translate_items ?w1 ?a1 d [] st0 = (Inr res1, st1)"
    by (rule object_run)
  from dist have dist': "distinct (map fst d)" by (simp add: dict_keys_def)
  from translate_items_entries[OF items1 dist'] have
    ents: "list_all2 (\<lambda>kv ku. fst ku = fst kv \<and> entry_value ?w1 ?a1 (fst kv) (snd kv) (snd ku)) d res1"
    by simp
  then have keys: "map fst res1 = map fst d"
    by (induction d res1 rule: list_all2_induct) auto
  with dist' have dres: "distinct (map fst res1)" by simp
  from load_cache_warm[OF valid, of res1] obtain g where
    load: "load_cache True (Some (JObj res1)) nocache2 = Inr (JObj g)"
    and keeps: "\<forall>kv \<in> set res1. fst kv \<in> set (dict_keys d) \<longrightarrow> kv \<in> set g"
    and dg: "distinct (map fst g)" using dres by blast
  let ?w2 = "\<lparr>server = U', time_sleep = S', py_str = P', GLOBAL_CACHE = JObj g\<rparr>"
  let ?a2 = "\<lparr>target_locale = lang', sleep = sl', skip = ?sk,
            keep = (case keep2 of None \<Rightarrow> [] | Some ks \<Rightarrow> ks),
            existing = JObj res1, cache = Some True\<rparr>"
  have rel: "list_all2 (\<lambda>kv ku. fst ku = fst kv \<and> (fst kv \<in> set (skip ?a2) \<longrightarrow> snd ku = snd kv)) d res1"
  proof (rule list.rel_mono_strong[OF ents])
    fix kv ku
    assume "fst ku = fst kv \<and> entry_value ?w1 ?a1 (fst kv) (snd kv) (snd ku)"
    then show "fst ku = fst kv \<and> (fst kv \<in> set (skip ?a2) \<longrightarrow> snd ku = snd kv)"
      using entry_value_skip[of ?w1 ?a1 "fst kv" "snd kv" "snd ku"] by simp
  qed
  have vals: "\<forall>ku \<in> set res1. dict_get res1 (fst ku) = Some (snd ku) \<and> dict_get g (fst ku) = Some (snd ku)"
  proof
    fix ku assume mem: "ku \<in> set res1"
    then have "fst ku \<in> set (map fst d)" using keys by (metis image_eqI list.set_map)
    with keeps mem have "ku \<in> set g" by (simp add: dict_keys_def)
    moreover obtain k u where "ku = (k, u)" by (cases ku)
    ultimately show "dict_get res1 (fst ku) = Some (snd ku) \<and> dict_get g (fst ku) = Some (snd ku)"
      using mem dres dg by (simp add: dict_get_def)
  qed
  have "translate_items ?w2 ?a2 d [] st = (Inr ([] @ res1), st)"
    by (rule replay[OF _ _ rel vals dres]) simp_all
  then have run2: "iterate_translate ?w2 ?a2 (JObj d) st = (Inr r1, st)"
    by (simp add: r1)
  have gs: "get_strings_from_file ?w2 (JObj d) (output_json fs1) lang' sl' skip_opt keep2
      (Some True) st = (Inr r1, st)"
    using run2 by (simp add: get_strings_from_file_def fs1 r1)
  have lc: "load_cache True (cache_json fs1) nocache2 = Inr (JObj g)"
    using load by (simp add: fs1 r1)
  have sv: "save_results_file r1 fs1 True = fs1"
    by (simp add: save_results_file_def fs1)
  show ?thesis
    by (simp add: main_run_def lc gs sv)
qed

theorem rerun_is_identical_witness:
  "main_run hola_service usual_sleep blank_str (JObj [(''greeting'', JStr ''Hello''), (''note'', JStr '''')])
      ''ES'' 0 None (Some [''greeting'', ''note'']) True None
      \<lparr>output_json = None, cache_json = None\<rparr> []
     = (Inr (JObj [(''greeting'', JStr ''Hola''), (''note'', JStr '''')]),
        \<lparr>output_json = Some (JObj [(''greeting'', JStr ''Hola''), (''note'', JStr '''')]),
         cache_json = Some (JObj [(''greeting'', JStr ''Hola''), (''note'', JStr '''')])\<rparr>,
        [Slept 0, Requested ''ES'' ''Hello''])
   \<and> main_run refusing_service usual_sleep blank_str (JObj [(''greeting'', JStr ''Hello''), (''note'', JStr '''')])
      ''ES'' 0 None (Some [''greeting'', ''note'']) True None
      \<lparr>output_json = Some (JObj [(''greeting'', JStr ''Hola''), (''note'', JStr '''')]),
       cache_json = Some (JObj [(''greeting'', JStr ''Hola''), (''note'', JStr '''')])\<rparr> []
     = (Inr (JObj [(''greeting'', JStr ''Hola''), (''note'', JStr '''')]),
        \<lparr>output_json = Some (JObj [(''greeting'', JStr ''Hola''), (''note'', JStr '''')]),
         cache_json = Some (JObj [(''greeting'', JStr ''Hola''), (''note'', JStr '''')])\<rparr>,
        [])"
proof -
  let ?d = "[(''greeting'', JStr ''Hello''), (''note'', JStr '''')]"
  let ?r = "JObj [(''greeting'', JStr ''Hola''), (''note'', JStr '''')]"
  let ?fs = "\<lparr>output_json = Some ?r, cache_json = Some ?r\<rparr>"
  have first: "main_run hola_service usual_sleep blank_str (JObj ?d) ''ES'' 0 None (Some [''greeting'', ''note''])
      True None \<lparr>output_json = None, cache_json = None\<rparr> []
      = (Inr ?r, ?fs, [Slept 0, Requested ''ES'' ''Hello''])"
    by (simp add: demo main_run_def load_cache_def get_strings_from_file_def save_results_file_def)
  have dist: "distinct (dict_keys ?d)" by (simp add: dict_keys_def)
  have valid: "\<forall>ns. (None :: string list option) = Some ns \<longrightarrow> set ns \<inter> set (dict_keys ?d) = {}"
    by simp
  from rerun_is_identical[OF first dist valid, of refusing_service usual_sleep blank_str "''ES''" 0
      "Some [''greeting'', ''note'']" "[]"] first
  show ?thesis by simp
qed

end
